theory Spec2Isabelle
  imports Complex_Main
begin

section \<open>JavaScript numbers and arrays\<close>

text \<open>
  A JavaScript \<^verbatim>\<open>number\<close> is modelled as a real number, one of the two infinities, or
  \<^verbatim>\<open>NaN\<close>. The sign of zero is not modelled. Subtraction is exact (the rounded
  difference of two doubles has the sign of the exact one); division, whose rounding can
  change a ceiling, is a parameter of the model, given below. The comparisons follow the
  language: every comparison with \<^verbatim>\<open>NaN\<close> is false, and \<^verbatim>\<open>NaN === NaN\<close> is false
  too.
\<close>

datatype number = Fin real | PosInf | NegInf | NaN

fun js_lt :: "number \<Rightarrow> number \<Rightarrow> bool" where
  "js_lt (Fin a) (Fin b) = (a < b)"
| "js_lt (Fin a) PosInf = True"
| "js_lt NegInf (Fin b) = True"
| "js_lt NegInf PosInf = True"
| "js_lt _ _ = False"

definition js_gt :: "number \<Rightarrow> number \<Rightarrow> bool" where
  "js_gt a b = js_lt b a"

definition js_strict_eq :: "number \<Rightarrow> number \<Rightarrow> bool" where
  "js_strict_eq a b = (a \<noteq> NaN \<and> a = b)"

definition js_le :: "number \<Rightarrow> number \<Rightarrow> bool" where
  "js_le a b = (a \<noteq> NaN \<and> b \<noteq> NaN \<and> \<not> js_lt b a)"

fun js_sub :: "number \<Rightarrow> number \<Rightarrow> number" where
  "js_sub (Fin a) (Fin b) = Fin (a - b)"
| "js_sub NaN _ = NaN"
| "js_sub _ NaN = NaN"
| "js_sub PosInf PosInf = NaN"
| "js_sub NegInf NegInf = NaN"
| "js_sub PosInf _ = PosInf"
| "js_sub NegInf _ = NegInf"
| "js_sub (Fin a) PosInf = NegInf"
| "js_sub (Fin a) NegInf = PosInf"

fun isFinite :: "number \<Rightarrow> bool" where
  "isFinite (Fin a) = True"
| "isFinite _ = False"

text \<open>
  \<^verbatim>\<open>xs[i]\<close> on an array: the element, or \<^verbatim>\<open>undefined\<close> (here \<open>None\<close>) outside
  the bounds, also for index \<open>-1\<close>.
\<close>

definition array_get :: "'a list \<Rightarrow> int \<Rightarrow> 'a option" where
  "array_get xs i = (if 0 \<le> i \<and> i < int (length xs) then Some (xs ! nat i) else None)"

text \<open>
  \<^verbatim>\<open>Array.prototype.slice(start, end)\<close>: a negative index counts from the end and is
  clamped at 0, a positive one is clamped at the length; a missing \<^verbatim>\<open>end\<close> is the
  length. \<^verbatim>\<open>slice(-0)\<close> is \<^verbatim>\<open>slice(0)\<close>, the whole array.
\<close>

definition relative_index :: "int \<Rightarrow> int \<Rightarrow> int" where
  "relative_index len i = (if i < 0 then max (len + i) 0 else min i len)"

definition slice :: "int \<Rightarrow> int option \<Rightarrow> 'a list \<Rightarrow> 'a list" where
  "slice start end' xs =
     (let len = int (length xs);
          k = relative_index len start;
          final = (case end' of None \<Rightarrow> len | Some e \<Rightarrow> relative_index len e)
      in take (nat (final - k)) (drop (nat k) xs))"

section \<open>Data model\<close>

text \<open>\<^verbatim>\<open>CandlestickData\<close> as the services produce it: the time is a number of seconds.\<close>

record candle =
  time :: number
  open' :: number
  high :: number
  low :: number
  close :: number

text \<open>\<^verbatim>\<open>types.ts\<close>\<close>

datatype ConnectionState = idle | connecting | online | offline | error

record HistoryPreset =
  label :: string
  minutes :: number

section \<open>\<^verbatim>\<open>services/binance.ts\<close>: bar transformation\<close>

text \<open>
  The fields of a raw kline row (\<^verbatim>\<open>any[]\<close>): a number, a string, \<^verbatim>\<open>null\<close>, or
  \<^verbatim>\<open>undefined\<close> for an index past the end of the row. On a number \<^verbatim>\<open>parseFloat\<close>
  and the conversion to a number are the identity, \<^verbatim>\<open>undefined\<close> gives \<^verbatim>\<open>NaN\<close>, and
  \<^verbatim>\<open>null\<close> converts to 0 but parses to \<^verbatim>\<open>NaN\<close>.
\<close>

datatype jsval = JNumber number | JString string | JUndefined | JNull

text \<open>
  What the language and its engine supply is a parameter of the model: the number that
  the conversion to a number and \<^verbatim>\<open>parseFloat\<close> read from a string; the quotient of two
  finite numbers, rounded to a double (used with divisors of at least 1, so it does not
  overflow); and \<^verbatim>\<open>Array.prototype.sort\<close> with a comparator, whose result the
  language fixes only for a comparator that is a consistent order.
\<close>

record js_builtins =
  StringToNumber :: "string \<Rightarrow> number"
  parseFloat_string :: "string \<Rightarrow> number"
  js_divide :: "real \<Rightarrow> real \<Rightarrow> real"
  Array_sort :: "(candle \<Rightarrow> candle \<Rightarrow> number) \<Rightarrow> candle list \<Rightarrow> candle list"

fun ToNumber :: "js_builtins \<Rightarrow> jsval \<Rightarrow> number" where
  "ToNumber B (JNumber n) = n"
| "ToNumber B (JString s) = StringToNumber B s"
| "ToNumber B JUndefined = NaN"
| "ToNumber B JNull = Fin 0"

fun parseFloat :: "js_builtins \<Rightarrow> jsval \<Rightarrow> number" where
  "parseFloat B (JNumber n) = n"
| "parseFloat B (JString s) = parseFloat_string B s"
| "parseFloat B JUndefined = NaN"
| "parseFloat B JNull = NaN"

text \<open>Division of a number by a positive finite constant, as in \<^verbatim>\<open>row[0] / 1000\<close>.\<close>

fun js_div_by :: "js_builtins \<Rightarrow> number \<Rightarrow> real \<Rightarrow> number" where
  "js_div_by B (Fin a) d = Fin (js_divide B a d)"
| "js_div_by B n d = n"

definition row_get :: "jsval list \<Rightarrow> int \<Rightarrow> jsval" where
  "row_get row i = (case array_get row i of None \<Rightarrow> JUndefined | Some v \<Rightarrow> v)"

definition toCandle :: "js_builtins \<Rightarrow> jsval list \<Rightarrow> candle" where
  "toCandle B row =
     \<lparr> time = js_div_by B (ToNumber B (row_get row 0)) 1000,
       open' = parseFloat B (row_get row 1),
       high = parseFloat B (row_get row 2),
       low = parseFloat B (row_get row 3),
       close = parseFloat B (row_get row 4) \<rparr>"

section \<open>\<^verbatim>\<open>services/binance.ts\<close>: range calculation\<close>

definition MAX_PER_REQUEST :: int where
  "MAX_PER_REQUEST = 1500"

definition MAX_CANDLES_CAP :: int where
  "MAX_CANDLES_CAP = 50000"

text \<open>
  The table \<^verbatim>\<open>intervalToMinutes\<close> is an object literal, and the source reads it
  with \<^verbatim>\<open>intervalToMinutes[interval]\<close>: the result is the duration for one of the six
  keys, a function or object for a property name that every object inherits from
  \<^verbatim>\<open>Object.prototype\<close>, and \<^verbatim>\<open>undefined\<close> for any other string.
\<close>

datatype property = Own real | Inherited | Absent

definition Object_prototype_keys :: "string list" where
  "Object_prototype_keys =
     [''constructor'', ''hasOwnProperty'', ''isPrototypeOf'', ''propertyIsEnumerable'',
      ''toLocaleString'', ''toString'', ''valueOf'', ''__proto__'', ''__defineGetter__'',
      ''__defineSetter__'', ''__lookupGetter__'', ''__lookupSetter__'']"

definition intervalToMinutes :: "string \<Rightarrow> property" where
  "intervalToMinutes key =
     (case map_of [(''1m'', 1), (''5m'', 5), (''15m'', 15), (''1h'', 60), (''4h'', 240),
                   (''1d'', 1440)] key of
        Some d \<Rightarrow> Own d
      | None \<Rightarrow> if key \<in> set Object_prototype_keys then Inherited else Absent)"

text \<open>
  \<^verbatim>\<open>maxCandlesForPreset\<close>: the \<^verbatim>\<open>??\<close> default, which applies to \<^verbatim>\<open>undefined\<close> only;
  the early return for a preset that is not finite; then
  \<^verbatim>\<open>Math.min(Math.ceil(...), cap)\<close>. Dividing by an inherited function or object gives
  \<^verbatim>\<open>NaN\<close>, and so does the whole expression. The result is a whole number or
  \<^verbatim>\<open>NaN\<close>, here \<open>None\<close>.
\<close>

definition maxCandlesForPreset :: "js_builtins \<Rightarrow> HistoryPreset \<Rightarrow> string \<Rightarrow> int option" where
  "maxCandlesForPreset B preset interval =
     (let mins = (case intervalToMinutes interval of Absent \<Rightarrow> Own 1 | p \<Rightarrow> p)
      in case minutes preset of
           Fin p \<Rightarrow>
             (case mins of
                Own d \<Rightarrow> (let needed = \<lceil>js_divide B p d\<rceil> in Some (min needed MAX_CANDLES_CAP))
              | _ \<Rightarrow> None)
         | _ \<Rightarrow> Some MAX_CANDLES_CAP)"

section \<open>\<^verbatim>\<open>services/binance.ts\<close>: paginated history\<close>

text \<open>
  The request that \<^verbatim>\<open>buildRestUrl\<close> encodes in the query string: the end time is left
  out when it is falsy (0 or \<^verbatim>\<open>NaN\<close>).
\<close>

record rest_request =
  req_symbol :: string
  req_interval :: string
  req_limit :: int
  req_endTime :: "number option"

definition truthy :: "number \<Rightarrow> bool" where
  "truthy n = (n \<noteq> NaN \<and> n \<noteq> Fin 0)"

definition buildRestUrl :: "string \<Rightarrow> string \<Rightarrow> int \<Rightarrow> number option \<Rightarrow> rest_request" where
  "buildRestUrl symb intv limit endTime =
     \<lparr> req_symbol = symb, req_interval = intv, req_limit = limit,
       req_endTime = (case endTime of None \<Rightarrow> None
                      | Some t \<Rightarrow> if truthy t then Some t else None) \<rparr>"

text \<open>
  Thrown values: the \<^verbatim>\<open>DOMException\<close> named \<^verbatim>\<open>AbortError\<close>, an \<^verbatim>\<open>Error\<close> with its
  message, or a value that is not an \<^verbatim>\<open>Error\<close>.
\<close>

datatype js_error = AbortError | Error string | Thrown

text \<open>
  What one \<^verbatim>\<open>fetch\<close> with \<^verbatim>\<open>res.json()\<close> can come to: a rejection (abort, network or
  parse failure), a response that is not \<^verbatim>\<open>ok\<close> with its status, or the parsed page.
\<close>

datatype fetch_outcome = Rejected js_error | HttpStatus nat | Page "jsval list list"

fun decimal :: "nat \<Rightarrow> string" where
  "decimal n =
     (if n < 10 then [char_of (48 + n)]
      else decimal (n div 10) @ [char_of (48 + n mod 10)])"

text \<open>
  The pagination loop of \<^verbatim>\<open>fetchHistorical\<close>. The network is a function giving the
  outcome of the \<open>k\<close>-th request of the call; the loop carries the requests issued so
  far, the cursor \<^verbatim>\<open>endTime\<close> and \<^verbatim>\<open>collected\<close>.
\<close>

function fetch_pages ::
  "js_builtins \<Rightarrow> (nat \<Rightarrow> rest_request \<Rightarrow> fetch_outcome) \<Rightarrow> string \<Rightarrow> string \<Rightarrow> int \<Rightarrow>
   number option \<Rightarrow> number \<Rightarrow> candle list \<Rightarrow> rest_request list \<Rightarrow>
   rest_request list \<times> (js_error + candle list)" where
  "fetch_pages B fetch symb intv targetCandles targetStartMs endTime collected reqs =
     (if int (length collected) < targetCandles then
        (let remaining = targetCandles - int (length collected);
             limit = min MAX_PER_REQUEST remaining;
             req = buildRestUrl symb intv limit (Some endTime);
             reqs' = reqs @ [req]
         in case fetch (length reqs) req of
              Rejected e \<Rightarrow> (reqs', Inl e)
            | HttpStatus st \<Rightarrow>
                (reqs', Inl (Error (''Unable to fetch history ('' @ decimal st @ '')'')))
            | Page payload \<Rightarrow>
                if payload = [] then (reqs', Inr collected)
                else
                  (let chunk = map (toCandle B) payload;
                       collected' = collected @ chunk;
                       firstOpen = ToNumber B (row_get (hd payload) 0);
                       endTime' = js_sub firstOpen (Fin 1)
                   in if (case targetStartMs of None \<Rightarrow> False
                          | Some t \<Rightarrow> truthy t \<and> js_le firstOpen t)
                      then (reqs', Inr collected')
                      else if int (length chunk) < limit then (reqs', Inr collected')
                      else fetch_pages B fetch symb intv targetCandles targetStartMs
                             endTime' collected' reqs'))
      else (reqs, Inr collected))"
  by pat_completeness auto
termination
  by (relation "measure (\<lambda>(B, fetch, symb, intv, targetCandles, targetStartMs, endTime, collected, reqs).
        nat (targetCandles - int (length collected)))") auto

declare fetch_pages.simps [simp del]

text \<open>
  \<^verbatim>\<open>fetchHistorical\<close>, with the two readings of \<^verbatim>\<open>Date.now()\<close> as parameters. The
  first component is the list of page requests it issued, the second what the promise
  settles to. When the target is \<^verbatim>\<open>NaN\<close> the loop condition is false at once. The
  start of the window is computed exactly here; it only decides when the loop stops
  early.
\<close>

definition fetchHistorical ::
  "js_builtins \<Rightarrow> (nat \<Rightarrow> rest_request \<Rightarrow> fetch_outcome) \<Rightarrow> int \<Rightarrow> int \<Rightarrow> string \<Rightarrow> string \<Rightarrow>
   HistoryPreset \<Rightarrow> rest_request list \<times> (js_error + candle list)" where
  "fetchHistorical B fetch now1 now2 symb intv preset =
     (let targetCandles = maxCandlesForPreset B preset intv;
          targetStartMs = (case minutes preset of
                             Fin m \<Rightarrow> Some (Fin (real_of_int now1 - m * 60 * 1000))
                           | _ \<Rightarrow> None);
          sorted_by_time = Array_sort B (\<lambda>a b. js_sub (time a) (time b))
      in case targetCandles of
           None \<Rightarrow> ([], Inr (sorted_by_time []))
         | Some target \<Rightarrow>
             (case fetch_pages B fetch symb intv target targetStartMs
                     (Fin (real_of_int now2)) [] [] of
                (reqs, Inl e) \<Rightarrow> (reqs, Inl e)
              | (reqs, Inr collected) \<Rightarrow> (reqs, Inr (sorted_by_time collected))))"

section \<open>\<^verbatim>\<open>useKlines\<close>: candle merge\<close>

text \<open>
  The updater that \<^verbatim>\<open>applyIncomingCandle\<close> passes to \<^verbatim>\<open>setCandles\<close>, as a function
  of the cap, the incoming candle and the previous array. \<^verbatim>\<open>prev[prev.length - 1]\<close> is
  \<^verbatim>\<open>undefined\<close> exactly when the array is empty, and a candle object is always truthy.
\<close>

definition applyIncomingCandle :: "int \<Rightarrow> candle \<Rightarrow> candle list \<Rightarrow> candle list" where
  "applyIncomingCandle cap c prev =
     (case array_get prev (int (length prev) - 1) of
        None \<Rightarrow> slice (- cap) None (prev @ [c])
      | Some lst \<Rightarrow>
          if js_gt (time c) (time lst) then slice (- cap) None (prev @ [c])
          else if js_strict_eq (time lst) (time c) then slice 0 (Some (- 1)) prev @ [c]
          else prev)"


text \<open>A sequence of incoming candles, merged one after the other.\<close>

definition applyAll :: "int \<Rightarrow> candle list \<Rightarrow> candle list \<Rightarrow> candle list" where
  "applyAll cap cs prev = foldl (\<lambda>s c. applyIncomingCandle cap c s) prev cs"


section \<open>\<^verbatim>\<open>useKlines\<close>: history loading and reconnection\<close>

text \<open>
  The state of the hook: its \<^verbatim>\<open>useState\<close> values, its refs, and the two variables
  \<^verbatim>\<open>cancelled\<close> and \<^verbatim>\<open>attempts\<close> of the running effect. An abort controller is
  identified by the request id it was created for; a pending timer by its delay in
  milliseconds. The socket handle \<^verbatim>\<open>wsRef\<close> is left out: the handlers below are those
  of the current socket.
\<close>

record hook_state =
  candles :: "candle list"
  historyLoading :: bool
  error_message :: "string option"
  connection :: ConnectionState
  nextRetrySec :: "int option"
  lastUpdated :: "int option"
  reconnectTimerRef :: "int option"
  historyAbortRef :: "nat option"
  aborted :: "nat list"
  requestIdRef :: nat
  cancelled :: bool
  attempts :: nat

text \<open>
  \<^verbatim>\<open>loadHistory\<close> up to its \<^verbatim>\<open>await\<close>: the new request id and the state it leaves.
\<close>

definition loadHistory_begin :: "hook_state \<Rightarrow> nat \<times> hook_state" where
  "loadHistory_begin s =
     (let requestId = requestIdRef s + 1
      in (requestId,
          s \<lparr> requestIdRef := requestId,
              aborted := (case historyAbortRef s of None \<Rightarrow> aborted s
                          | Some c \<Rightarrow> c # aborted s),
              historyAbortRef := Some requestId,
              historyLoading := True,
              error_message := None \<rparr>))"

text \<open>
  \<^verbatim>\<open>loadHistory\<close> from the moment the awaited \<^verbatim>\<open>fetchHistorical\<close> settles, on the
  state of that moment: the \<^verbatim>\<open>try\<close> body or the \<^verbatim>\<open>catch\<close> clause, then \<^verbatim>\<open>finally\<close>.
\<close>

definition loadHistory_finally :: "nat \<Rightarrow> hook_state \<Rightarrow> hook_state" where
  "loadHistory_finally requestId s =
     (if requestId \<noteq> requestIdRef s then s else s \<lparr> historyLoading := False \<rparr>)"

definition loadHistory_settled ::
  "nat \<Rightarrow> int \<Rightarrow> js_error + candle list \<Rightarrow> hook_state \<Rightarrow> hook_state" where
  "loadHistory_settled requestId now outcome s =
     (case outcome of
        Inr candlesLoaded \<Rightarrow>
          if requestId \<noteq> requestIdRef s then loadHistory_finally requestId s
          else loadHistory_finally requestId
                 (s \<lparr> candles := candlesLoaded, lastUpdated := Some now \<rparr>)
      | Inl err \<Rightarrow>
          (case err of
             AbortError \<Rightarrow> loadHistory_finally requestId s
           | Error msg \<Rightarrow> loadHistory_finally requestId (s \<lparr> error_message := Some msg \<rparr>)
           | Thrown \<Rightarrow>
               loadHistory_finally requestId
                 (s \<lparr> error_message := Some ''Failed to load historical data'' \<rparr>)))"

text \<open>\<^verbatim>\<open>Math.round\<close> on a finite number.\<close>

definition Math_round :: "real \<Rightarrow> int" where
  "Math_round x = \<lfloor>x + 1 / 2\<rfloor>"

definition scheduleReconnect :: "hook_state \<Rightarrow> hook_state" where
  "scheduleReconnect s =
     (if cancelled s then s
      else
        (let attempts' = attempts s + 1;
             delay = min 30000 (1000 * 2 ^ (min attempts' 5))
         in s \<lparr> attempts := attempts',
                connection := offline,
                nextRetrySec := Some (Math_round (real_of_int delay / 1000)),
                reconnectTimerRef := Some delay \<rparr>))"

text \<open>The handlers that \<^verbatim>\<open>connect\<close> installs, and \<^verbatim>\<open>connect\<close> itself.\<close>

definition connect :: "hook_state \<Rightarrow> hook_state" where
  "connect s = (if cancelled s then s else s \<lparr> connection := connecting \<rparr>)"

definition ws_onopen :: "hook_state \<Rightarrow> hook_state" where
  "ws_onopen s =
     (if cancelled s then s
      else s \<lparr> attempts := 0, connection := online, nextRetrySec := None \<rparr>)"

definition ws_onerror :: "hook_state \<Rightarrow> hook_state" where
  "ws_onerror s = s \<lparr> connection := error \<rparr>"

definition ws_onclose :: "hook_state \<Rightarrow> hook_state" where
  "ws_onclose s = scheduleReconnect s"

text \<open>
  \<open>n\<close> close events in a row, each followed by the timer firing \<^verbatim>\<open>connect\<close>, with no
  open event between them: the state right after each close event.
\<close>

fun consecutive_closes :: "nat \<Rightarrow> hook_state \<Rightarrow> hook_state list" where
  "consecutive_closes 0 s = []"
| "consecutive_closes (Suc n) s =
     (let s' = ws_onclose s in s' # consecutive_closes n (connect s'))"

section \<open>\<^verbatim>\<open>PriceChart\<close>: reset or incremental update\<close>

record chart_refs =
  hydratedRef :: bool
  prevSymbolRef :: "string option"
  prevLengthRef :: nat
  prevFirstTimeRef :: "number option"
  prevLastTimeRef :: "number option"

datatype chart_call = setData "candle list" | update candle

text \<open>
  The expression \<^verbatim>\<open>isReset\<close> of the data effect, over the refs and the first time, last
  time and length of the new array.
\<close>

definition isReset :: "chart_refs \<Rightarrow> number \<Rightarrow> number \<Rightarrow> nat \<Rightarrow> bool" where
  "isReset r firstTime lastTime len =
     (let prevLen = int (prevLengthRef r)
      in \<not> hydratedRef r \<or> prevLen = 0 \<or>
         (case prevFirstTimeRef r of
            None \<Rightarrow> True
          | Some prevFirstTime \<Rightarrow>
              (case prevLastTimeRef r of
                 None \<Rightarrow> True
               | Some prevLastTime \<Rightarrow>
                   \<not> js_strict_eq firstTime prevFirstTime \<or>
                   js_lt lastTime prevLastTime \<or>
                   int len < prevLen - 1 \<or>
                   int len - prevLen > 1)))"

text \<open>The data effect: the call made on the chart series, if any, and the refs after it.\<close>

definition data_effect :: "chart_refs \<Rightarrow> candle list \<Rightarrow> chart_call option \<times> chart_refs" where
  "data_effect r cs =
     (case cs of
        [] \<Rightarrow> (None, r)
      | first # _ \<Rightarrow>
          (let lst = last cs;
               firstTime = time first;
               lastTime = time lst;
               reset = isReset r firstTime lastTime (length cs);
               call = (if reset then setData cs else update lst);
               r' = (if reset then r \<lparr> hydratedRef := True \<rparr> else r)
           in (Some call,
               r' \<lparr> prevLengthRef := length cs,
                    prevFirstTimeRef := Some firstTime,
                    prevLastTimeRef := Some lastTime \<rparr>)))"

text \<open>The symbol effect.\<close>

definition symbol_effect :: "chart_refs \<Rightarrow> string \<Rightarrow> chart_call option \<times> chart_refs" where
  "symbol_effect r symb =
     (if prevSymbolRef r \<noteq> None \<and> prevSymbolRef r \<noteq> Some symb
      then (Some (setData []),
            r \<lparr> hydratedRef := False, prevLengthRef := 0, prevFirstTimeRef := None,
                prevLastTimeRef := None, prevSymbolRef := Some symb \<rparr>)
      else (None, r \<lparr> prevSymbolRef := Some symb \<rparr>))"

definition initial_refs :: chart_refs where
  "initial_refs =
     \<lparr> hydratedRef = False, prevSymbolRef = None, prevLengthRef = 0,
       prevFirstTimeRef = None, prevLastTimeRef = None \<rparr>"

section \<open>Notions of the specification\<close>

text \<open>Monotonic time: every bar is strictly earlier than the next one.\<close>

definition monotonic_time :: "candle list \<Rightarrow> bool" where
  "monotonic_time s = successively (\<lambda>a b. js_lt (time a) (time b)) s"

text \<open>
  The reset decision in the words of the specification: reset when not yet hydrated, when
  the previous length was zero, when the first bar's time changed, when the last bar's
  time decreased, when the length shrank by more than one, or when it grew by more than
  one. A time has changed when it is not \<^verbatim>\<open>===\<close> to the previous one.
\<close>

definition reset_required :: "chart_refs \<Rightarrow> number \<Rightarrow> number \<Rightarrow> nat \<Rightarrow> bool" where
  "reset_required r firstTime lastTime len =
     (\<not> hydratedRef r \<or>
      prevLengthRef r = 0 \<or>
      (case prevFirstTimeRef r of None \<Rightarrow> False | Some p \<Rightarrow> \<not> js_strict_eq firstTime p) \<or>
      (case prevLastTimeRef r of None \<Rightarrow> False | Some p \<Rightarrow> js_lt lastTime p) \<or>
      len + 1 < prevLengthRef r \<or>
      prevLengthRef r + 1 < len)"

text \<open>
  The tracking refs of the chart as the two effects leave them: either nothing has been
  rendered (length zero, no times), or a render has happened (hydrated, both times set).
\<close>

definition refs_consistent :: "chart_refs \<Rightarrow> bool" where
  "refs_consistent r =
     (if prevLengthRef r = 0
      then prevFirstTimeRef r = None \<and> prevLastTimeRef r = None
      else hydratedRef r \<and> prevFirstTimeRef r \<noteq> None \<and> prevLastTimeRef r \<noteq> None)"

text \<open>
  What the language requires of the engine's sort where this program uses it: the result
  has the elements of the array, and when the keys are finite numbers, so that their
  difference is a consistent comparator, it is in ascending order of the keys.
\<close>

definition conforming_sort :: "js_builtins \<Rightarrow> bool" where
  "conforming_sort B =
     ((\<forall>cmp xs. length (Array_sort B cmp xs) = length xs \<and> set (Array_sort B cmp xs) = set xs)
      \<and> (\<forall>key xs. (\<forall>x\<in>set xs. isFinite (key x)) \<longrightarrow>
            sorted_wrt (\<lambda>a b. js_le (key a) (key b))
              (Array_sort B (\<lambda>a b. js_sub (key a) (key b)) xs)))"

text \<open>
  An engine for the worked examples. Its sort is a stable insertion sort that counts a
  comparator result of \<^verbatim>\<open>NaN\<close> as 0; its division is exact, which is the rounded
  quotient wherever the examples divide; its string conversions are given on the strings
  of the examples (and are \<^verbatim>\<open>NaN\<close>, unused, on any other string).
\<close>

fun insert_sorted :: "('a \<Rightarrow> 'a \<Rightarrow> number) \<Rightarrow> 'a \<Rightarrow> 'a list \<Rightarrow> 'a list" where
  "insert_sorted cmp x [] = [x]"
| "insert_sorted cmp x (y # ys) =
     (if js_gt (cmp x y) (Fin 0) then y # insert_sorted cmp x ys else x # y # ys)"

definition insertion_sort :: "('a \<Rightarrow> 'a \<Rightarrow> number) \<Rightarrow> 'a list \<Rightarrow> 'a list" where
  "insertion_sort cmp xs = foldr (insert_sorted cmp) xs []"

definition example_builtins :: js_builtins where
  "example_builtins =
     \<lparr> StringToNumber = (\<lambda>s. NaN),
       parseFloat_string = (\<lambda>s.
         if s = ''42350.10'' then Fin 42350.1
         else if s = ''42380.00'' then Fin 42380
         else if s = ''42310.00'' then Fin 42310
         else NaN),
       js_divide = (\<lambda>a b. a / b),
       Array_sort = insertion_sort \<rparr>"

text \<open>
  Networks for the worked examples: every request is answered with the same rows, cut to
  the requested limit. The example rows are three complete records, not in time order.
\<close>

definition serve_rows :: "jsval list list \<Rightarrow> nat \<Rightarrow> rest_request \<Rightarrow> fetch_outcome" where
  "serve_rows rows k req = Page (take (nat (req_limit req)) rows)"

definition example_rows :: "jsval list list" where
  "example_rows =
     [[JNumber (Fin 180000), JString ''42350.10'', JString ''42380.00'', JString ''42310.00'',
       JString ''42350.10''],
      [JNumber (Fin 60000), JString ''42310.00'', JString ''42350.10'', JString ''42310.00'',
       JString ''42350.10''],
      [JNumber (Fin 120000), JString ''42350.10'', JString ''42380.00'', JString ''42350.10'',
       JString ''42380.00'']]"

text \<open>A bar at time \<open>t\<close> whose four prices are all \<open>v\<close>, for the worked examples.\<close>

abbreviation flat_bar :: "real \<Rightarrow> real \<Rightarrow> candle" where
  "flat_bar t v \<equiv> \<lparr>time = Fin t, open' = Fin v, high = Fin v, low = Fin v, close = Fin v\<rparr>"

section \<open>Arrays and comparisons\<close>

lemma array_get_last:
  "array_get xs (int (length xs) - 1) = (if xs = [] then None else Some (last xs))"
  by (cases xs rule: rev_cases) (simp_all add: array_get_def nth_append)

lemma slice_from:
  "slice s None xs = drop (nat (relative_index (int (length xs)) s)) xs"
  by (simp add: slice_def Let_def relative_index_def)

lemma slice_butlast: "slice 0 (Some (- 1)) xs = butlast xs"
  by (simp add: slice_def Let_def relative_index_def butlast_conv_take nat_diff_distrib' max_def)

lemma js_lt_irrefl: "\<not> js_lt a a"
  by (cases a) simp_all

lemma js_lt_trans: "js_lt a b \<Longrightarrow> js_lt b c \<Longrightarrow> js_lt a c"
  by (cases a; cases b; cases c) simp_all

lemma applyIncomingCandle_cases:
  "applyIncomingCandle cap c prev =
     (if prev = [] \<or> js_gt (time c) (time (last prev))
      then drop (nat (relative_index (int (length prev) + 1) (- cap))) (prev @ [c])
      else if js_strict_eq (time (last prev)) (time c) then butlast prev @ [c]
      else prev)"
  by (simp add: applyIncomingCandle_def array_get_last slice_from slice_butlast add.commute)

lemma trim_pos:
  "1 \<le> cap \<Longrightarrow> nat (relative_index (int n + 1) (- cap)) = Suc n - nat cap"
  by (simp add: relative_index_def max_def) linarith

lemma successively_drop: "successively P xs \<Longrightarrow> successively P (drop n xs)"
proof (induction n arbitrary: xs)
  case 0
  then show ?case by simp
next
  case (Suc n)
  then show ?case by (cases xs) (auto simp: successively_Cons)
qed


lemma drop_snoc_end: "drop n (xs @ [x]) = [] \<or> last (drop n (xs @ [x])) = x"
proof (cases "n < length (xs @ [x])")
  case True
  then have "last (drop n (xs @ [x])) = last (xs @ [x])" by (rule last_drop)
  then show ?thesis by simp
next
  case False
  then show ?thesis by simp
qed

lemma monotonic_time_step:
  assumes "monotonic_time S"
  shows "monotonic_time (applyIncomingCandle cap b S)"
proof -
  let ?P = "\<lambda>a b. js_lt (time a) (time b)"
  from assms have S: "successively ?P S" by (simp add: monotonic_time_def)
  consider (app) "S = [] \<or> js_gt (time b) (time (last S))"
    | (repl) "S \<noteq> []" "\<not> js_gt (time b) (time (last S))" "js_strict_eq (time (last S)) (time b)"
    | (stale) "S \<noteq> []" "\<not> js_gt (time b) (time (last S))" "\<not> js_strict_eq (time (last S)) (time b)"
    by blast
  then have "successively ?P (applyIncomingCandle cap b S)"
  proof cases
    case app
    then have "successively ?P (S @ [b])"
      using S by (auto simp: successively_append_iff js_gt_def)
    then have "successively ?P (drop (nat (relative_index (int (length S) + 1) (- cap))) (S @ [b]))"
      by (rule successively_drop)
    with app show ?thesis by (simp only: applyIncomingCandle_cases if_True)
  next
    case repl
    then have t: "time b = time (last S)" by (simp add: js_strict_eq_def)
    from repl have "S = butlast S @ [last S]" by simp
    with S have "successively ?P (butlast S @ [last S])" by simp
    then have "successively ?P (butlast S @ [b])"
      by (simp add: successively_append_iff t)
    with repl show ?thesis by (simp add: applyIncomingCandle_cases)
  next
    case stale
    with S show ?thesis by (simp add: applyIncomingCandle_cases)
  qed
  then show ?thesis by (simp add: monotonic_time_def)
qed

lemma monotonic_time_applyAll:
  "monotonic_time S \<Longrightarrow> monotonic_time (applyAll cap bs S)"
  unfolding applyAll_def
  by (induction bs arbitrary: S) (simp_all add: monotonic_time_step)

lemma successively_nth:
  "successively P xs \<Longrightarrow> Suc i < length xs \<Longrightarrow> P (xs ! i) (xs ! Suc i)"
proof (induction xs arbitrary: i)
  case Nil
  then show ?case by simp
next
  case (Cons x xs)
  then show ?case by (cases i; cases xs) (auto simp: successively_Cons)
qed

lemma monotonic_time_distinct:
  assumes "monotonic_time S"
  shows "distinct (map time S)"
proof -
  have tr: "transp js_lt" by (rule transpI) (rule js_lt_trans)
  from assms have "successively js_lt (map time S)"
    by (simp add: monotonic_time_def successively_map)
  with tr have sw: "sorted_wrt js_lt (map time S)"
    by (simp add: successively_conv_sorted_wrt)
  have "sorted_wrt js_lt ts \<Longrightarrow> distinct ts" for ts
    by (induction ts) (auto simp: js_lt_irrefl)
  from this [OF sw] show ?thesis .
qed

lemma cap_step:
  assumes "1 \<le> cap" and "int (length S) \<le> cap"
  shows "int (length (applyIncomingCandle cap b S)) \<le> cap"
proof -
  from assms(1) have k: "nat (relative_index (int (length S) + 1) (- cap)) = Suc (length S) - nat cap"
    by (rule trim_pos)
  from assms show ?thesis
    by (auto simp: applyIncomingCandle_cases k)
qed

lemma cap_applyAll:
  "1 \<le> cap \<Longrightarrow> int (length S) \<le> cap \<Longrightarrow> int (length (applyAll cap bs S)) \<le> cap"
  unfolding applyAll_def
  by (induction bs arbitrary: S) (simp_all add: cap_step)

section \<open>The merge rule\<close>






text \<open>
  Claim C3. The merge is idempotent: merging the same bar a second time, right after the
  first, changes nothing. This holds for every series, every bar and every cap.
\<close>

theorem merge_idempotent:
  "applyIncomingCandle cap b (applyIncomingCandle cap b S) = applyIncomingCandle cap b S"
proof -
  let ?R = "applyIncomingCandle cap b S"
  have ends: "?R = [] \<or> last ?R = b \<or> ?R = S \<and> S \<noteq> [] \<and> \<not> js_gt (time b) (time (last S)) \<and> \<not> js_strict_eq (time (last S)) (time b)"
  proof (cases "S = [] \<or> js_gt (time b) (time (last S))")
    case True
    then have "?R = drop (nat (relative_index (int (length S) + 1) (- cap))) (S @ [b])"
      by (simp add: applyIncomingCandle_cases)
    with drop_snoc_end [of "nat (relative_index (int (length S) + 1) (- cap))" S b]
    show ?thesis by metis
  next
    case False
    then show ?thesis by (simp add: applyIncomingCandle_cases)
  qed
  have empty: "?R = [] \<Longrightarrow> int (length S) + 1 \<le> - cap"
    by (auto simp: applyIncomingCandle_cases relative_index_def split: if_splits)
  show ?thesis
  proof (cases "?R = []")
    case True
    with empty have "1 \<le> - cap" by linarith
    then have "applyIncomingCandle cap b [] = []"
      by (simp add: applyIncomingCandle_cases relative_index_def)
    with True show ?thesis by simp
  next
    case False
    with ends consider "last ?R = b" | "?R = S" "S \<noteq> []" "\<not> js_gt (time b) (time (last S))" "\<not> js_strict_eq (time (last S)) (time b)"
      by blast
    then show ?thesis
    proof cases
      case 1
      with False have "applyIncomingCandle cap b ?R = (if js_strict_eq (time b) (time b) then butlast ?R @ [b] else ?R)"
        by (subst applyIncomingCandle_cases) (simp add: js_gt_def js_lt_irrefl)
      moreover from False 1 have "butlast ?R @ [b] = ?R"
        by (metis append_butlast_last_id)
      ultimately show ?thesis by simp
    next
      case 2
      then show ?thesis by (simp add: applyIncomingCandle_cases)
    qed
  qed
qed



text \<open>
  Claim C2. A series whose times strictly increase keeps strictly increasing times under
  any sequence of merges: each bar of the result is strictly earlier than the next one,
  so no two bars of the result have the same time.
\<close>

theorem merges_keep_monotonic_time:
  assumes "monotonic_time S"
  shows "monotonic_time (applyAll cap bs S)
         \<and> (\<forall>i. Suc i < length (applyAll cap bs S) \<longrightarrow>
               js_lt (time (applyAll cap bs S ! i)) (time (applyAll cap bs S ! Suc i)))
         \<and> distinct (map time (applyAll cap bs S))"
proof -
  from assms have m: "monotonic_time (applyAll cap bs S)"
    by (rule monotonic_time_applyAll)
  then have "\<forall>i. Suc i < length (applyAll cap bs S) \<longrightarrow>
               js_lt (time (applyAll cap bs S ! i)) (time (applyAll cap bs S ! Suc i))"
    unfolding monotonic_time_def by (blast dest: successively_nth)
  with m monotonic_time_distinct [OF m] show ?thesis by blast
qed


theorem merges_keep_monotonic_time_witness:
  "monotonic_time [flat_bar 1640 1, flat_bar 1700 2]
   \<and> applyAll 2 [flat_bar 1700 3, flat_bar 1760 4, flat_bar 1650 5]
        [flat_bar 1640 1, flat_bar 1700 2] = [flat_bar 1700 3, flat_bar 1760 4]
   \<and> monotonic_time [flat_bar 1700 3, flat_bar 1760 4]
   \<and> distinct (map time [flat_bar 1700 3, flat_bar 1760 4])"
proof -
  have h: "monotonic_time [flat_bar 1640 1, flat_bar 1700 2]"
    by (simp add: monotonic_time_def)
  have v: "applyAll 2 [flat_bar 1700 3, flat_bar 1760 4, flat_bar 1650 5]
        [flat_bar 1640 1, flat_bar 1700 2] = [flat_bar 1700 3, flat_bar 1760 4]"
    by (simp add: applyAll_def applyIncomingCandle_def array_get_def slice_def
        relative_index_def js_gt_def js_strict_eq_def)
  from merges_keep_monotonic_time [OF h, of 2
      "[flat_bar 1700 3, flat_bar 1760 4, flat_bar 1650 5]"]
  show ?thesis using h unfolding v by blast
qed

text \<open>
  Claim C4. With a cap of at least 1, a series no longer than the cap is no longer than
  the cap after a merge, and after any sequence of merges. The cap of a session is
  \<^verbatim>\<open>maxCandlesForPreset\<close> of its preset and interval.
\<close>

theorem cap_enforcement:
  assumes "1 \<le> cap" and "int (length S) \<le> cap"
  shows "int (length (applyIncomingCandle cap b S)) \<le> cap
         \<and> int (length (applyAll cap bs S)) \<le> cap"
  using assms by (simp add: cap_step cap_applyAll)

theorem cap_enforcement_witness:
  "(1::int) \<le> 2 \<and> int (length [flat_bar 1640 1, flat_bar 1700 2]) \<le> 2
   \<and> int (length (applyIncomingCandle 2 (flat_bar 1760 4) [flat_bar 1640 1, flat_bar 1700 2])) \<le> 2
   \<and> int (length (applyAll 2 [flat_bar 1760 4, flat_bar 1820 5]
                     [flat_bar 1640 1, flat_bar 1700 2])) \<le> 2"
proof -
  have h1: "(1::int) \<le> 2" by simp
  have h2: "int (length [flat_bar 1640 1, flat_bar 1700 2]) \<le> 2" by simp
  from cap_enforcement [OF h1 h2, of "flat_bar 1760 4" "[flat_bar 1760 4, flat_bar 1820 5]"]
  show ?thesis using h2 by simp
qed

section \<open>Reconnection\<close>

lemma Math_round_seconds: "Math_round (real_of_int (1000 * k) / 1000) = k"
  unfolding Math_round_def by simp

lemma backoff_delay: "min 30000 (1000 * 2 ^ min n 5) = (1000::int) * min 30 (2 ^ min n 5)"
  by (simp add: min_def)

lemma scheduleReconnect_fields:
  assumes "\<not> cancelled s"
  shows "reconnectTimerRef (scheduleReconnect s) = Some (1000 * min 30 (2 ^ min (attempts s + 1) 5))"
    and "nextRetrySec (scheduleReconnect s) = Some (min 30 (2 ^ min (attempts s + 1) 5))"
    and "attempts (scheduleReconnect s) = attempts s + 1"
    and "connection (scheduleReconnect s) = offline"
    and "\<not> cancelled (scheduleReconnect s)"
  using assms
  by (simp_all add: scheduleReconnect_def Let_def backoff_delay Math_round_seconds del: of_int_mult)

lemma consecutive_closes_delays:
  "\<not> cancelled s \<Longrightarrow>
   map (\<lambda>t. (reconnectTimerRef t, nextRetrySec t)) (consecutive_closes n s)
   = map (\<lambda>i. (Some (1000 * min 30 (2 ^ min (attempts s + Suc i) 5)),
                Some (min 30 (2 ^ min (attempts s + Suc i) 5)))) [0..<n]"
proof (induction n arbitrary: s)
  case 0
  then show ?case by simp
next
  case (Suc n)
  let ?s' = "connect (ws_onclose s)"
  from Suc.prems have c: "\<not> cancelled ?s'" and a: "attempts ?s' = Suc (attempts s)"
    by (simp_all add: connect_def ws_onclose_def scheduleReconnect_fields)
  from Suc.prems have h: "reconnectTimerRef (ws_onclose s) = Some (1000 * min 30 (2 ^ min (attempts s + Suc 0) 5))"
      "nextRetrySec (ws_onclose s) = Some (min 30 (2 ^ min (attempts s + Suc 0) 5))"
    by (simp_all add: ws_onclose_def scheduleReconnect_fields)
  show ?case
    by (simp only: consecutive_closes.simps Let_def list.map map_upt_Suc Suc.IH [OF c] a h add_Suc_right add_Suc)
qed

text \<open>
  Claim C6. Unless the effect is cancelled, a close event schedules the reconnect after
  \<open>min 30 (2 ^ min attempt 5)\<close> seconds, where \<open>attempt\<close> is the counter after its
  increment, so counted from 1; the state becomes offline with that countdown. Six close
  events in a row from a counter of 0, with no open event between them, schedule 2, 4, 8,
  16, 30 and 30 seconds.
\<close>

theorem reconnect_backoff:
  "(\<not> cancelled s \<longrightarrow>
      reconnectTimerRef (scheduleReconnect s) = Some (1000 * min 30 (2 ^ min (attempts s + 1) 5))
      \<and> nextRetrySec (scheduleReconnect s) = Some (min 30 (2 ^ min (attempts s + 1) 5))
      \<and> attempts (scheduleReconnect s) = attempts s + 1
      \<and> connection (scheduleReconnect s) = offline)
   \<and> (\<not> cancelled s \<and> attempts s = 0 \<longrightarrow>
      map reconnectTimerRef (consecutive_closes 6 s)
        = [Some 2000, Some 4000, Some 8000, Some 16000, Some 30000, Some 30000]
      \<and> map nextRetrySec (consecutive_closes 6 s)
        = [Some 2, Some 4, Some 8, Some 16, Some 30, Some 30])"
proof -
  have six: "map reconnectTimerRef (consecutive_closes 6 s)
        = [Some 2000, Some 4000, Some 8000, Some 16000, Some 30000, Some 30000]
      \<and> map nextRetrySec (consecutive_closes 6 s)
        = [Some 2, Some 4, Some 8, Some 16, Some 30, Some 30]"
    if "\<not> cancelled s \<and> attempts s = 0"
  proof -
    from that have "map (\<lambda>t. (reconnectTimerRef t, nextRetrySec t)) (consecutive_closes 6 s)
        = map (\<lambda>i. (Some (1000 * min 30 (2 ^ min (Suc i) 5)), Some (min 30 (2 ^ min (Suc i) 5))))
            [0..<6]"
      by (simp add: consecutive_closes_delays)
    also have "\<dots> = [(Some 2000, Some 2), (Some 4000, Some 4), (Some 8000, Some 8),
        (Some 16000, Some 16), (Some 30000, Some 30), (Some 30000, Some 30)]"
      by code_simp
    finally have "map (\<lambda>t. (reconnectTimerRef t, nextRetrySec t)) (consecutive_closes 6 s) = \<dots>" .
    then have "map fst (map (\<lambda>t. (reconnectTimerRef t, nextRetrySec t)) (consecutive_closes 6 s))
          = [Some 2000, Some 4000, Some 8000, Some 16000, Some 30000, Some 30000]"
        "map snd (map (\<lambda>t. (reconnectTimerRef t, nextRetrySec t)) (consecutive_closes 6 s))
          = [Some 2, Some 4, Some 8, Some 16, Some 30, Some 30]"
      by simp_all
    then show ?thesis by (simp add: comp_def)
  qed
  from scheduleReconnect_fields [of s] six show ?thesis by blast
qed

theorem reconnect_backoff_witness:
  "map reconnectTimerRef (consecutive_closes 6
     \<lparr>candles = [], historyLoading = False, error_message = None, connection = online,
      nextRetrySec = None, lastUpdated = None, reconnectTimerRef = None,
      historyAbortRef = None, aborted = [], requestIdRef = 1, cancelled = False,
      attempts = 0\<rparr>)
   = [Some 2000, Some 4000, Some 8000, Some 16000, Some 30000, Some 30000]"
  using reconnect_backoff [of
     "\<lparr>candles = [], historyLoading = False, error_message = None, connection = online,
      nextRetrySec = None, lastUpdated = None, reconnectTimerRef = None,
      historyAbortRef = None, aborted = [], requestIdRef = 1, cancelled = False,
      attempts = 0\<rparr>"]
  by simp


section \<open>History loading\<close>

lemma loadHistory_finally_fields:
  "candles (loadHistory_finally requestId s) = candles s"
  "lastUpdated (loadHistory_finally requestId s) = lastUpdated s"
  "error_message (loadHistory_finally requestId s) = error_message s"
  "requestIdRef (loadHistory_finally requestId s) = requestIdRef s"
  by (simp_all add: loadHistory_finally_def)

text \<open>
  Claim C5. When the awaited fetch of a \<^verbatim>\<open>loadHistory\<close> call settles, with a result or
  with an error, and the request id of the call is no longer the current one, the candle
  series (and the update timestamp and loading flag) stay as they are. The series changes
  at this point only when the id is still current and the fetch succeeded, and then it
  becomes the fetched result. Every new \<^verbatim>\<open>loadHistory\<close> call advances the current id
  past all earlier ones.
\<close>

theorem stale_history_discarded:
  "(requestId \<noteq> requestIdRef s \<longrightarrow>
      candles (loadHistory_settled requestId now outcome s) = candles s
      \<and> lastUpdated (loadHistory_settled requestId now outcome s) = lastUpdated s
      \<and> historyLoading (loadHistory_settled requestId now outcome s) = historyLoading s)
   \<and> (candles (loadHistory_settled requestId now outcome s) \<noteq> candles s \<longrightarrow>
        requestId = requestIdRef s \<and> outcome = Inr (candles (loadHistory_settled requestId now outcome s)))
   \<and> fst (loadHistory_begin s) = requestIdRef s + 1
   \<and> requestIdRef (snd (loadHistory_begin s)) = requestIdRef s + 1
   \<and> (requestId \<le> requestIdRef s \<longrightarrow>
        candles (loadHistory_settled requestId now outcome (snd (loadHistory_begin s)))
        = candles s)"
proof -
  have stale: "candles (loadHistory_settled requestId now outcome s) = candles s
      \<and> lastUpdated (loadHistory_settled requestId now outcome s) = lastUpdated s
      \<and> historyLoading (loadHistory_settled requestId now outcome s) = historyLoading s"
    if "requestId \<noteq> requestIdRef s" for requestId s
    using that
    by (simp add: loadHistory_settled_def loadHistory_finally_def split: sum.split js_error.split)
  have only: "requestId = requestIdRef s \<and> outcome = Inr (candles (loadHistory_settled requestId now outcome s))"
    if "candles (loadHistory_settled requestId now outcome s) \<noteq> candles s"
    using that
    by (auto simp: loadHistory_settled_def loadHistory_finally_fields split: sum.splits js_error.splits if_splits)
  have bg: "fst (loadHistory_begin s) = requestIdRef s + 1"
      "requestIdRef (snd (loadHistory_begin s)) = requestIdRef s + 1"
      "candles (snd (loadHistory_begin s)) = candles s"
    by (simp_all add: loadHistory_begin_def Let_def)
  have later: "candles (loadHistory_settled requestId now outcome (snd (loadHistory_begin s))) = candles s"
    if "requestId \<le> requestIdRef s"
  proof -
    from that bg(2) have "requestId \<noteq> requestIdRef (snd (loadHistory_begin s))" by simp
    from stale [OF this] bg(3) show ?thesis by simp
  qed
  from stale [of requestId s] only bg(1,2) later show ?thesis by blast
qed

theorem stale_history_discarded_witness:
  "(1::nat) \<noteq> 2 \<and>
   candles (loadHistory_settled 1 1700000000000 (Inr [flat_bar 1640 1, flat_bar 1700 2])
     \<lparr>candles = [flat_bar 60 7], historyLoading = True, error_message = None,
      connection = connecting, nextRetrySec = None, lastUpdated = None,
      reconnectTimerRef = None, historyAbortRef = Some 2, aborted = [1], requestIdRef = 2,
      cancelled = False, attempts = 0\<rparr>) = [flat_bar 60 7]
   \<and> candles (loadHistory_settled 2 1700000000000 (Inr [flat_bar 1640 1, flat_bar 1700 2])
     \<lparr>candles = [flat_bar 60 7], historyLoading = True, error_message = None,
      connection = connecting, nextRetrySec = None, lastUpdated = None,
      reconnectTimerRef = None, historyAbortRef = Some 2, aborted = [1], requestIdRef = 2,
      cancelled = False, attempts = 0\<rparr>) = [flat_bar 1640 1, flat_bar 1700 2]"
proof -
  let ?s = "\<lparr>candles = [flat_bar 60 7], historyLoading = True, error_message = None,
      connection = connecting, nextRetrySec = None, lastUpdated = None,
      reconnectTimerRef = None, historyAbortRef = Some 2, aborted = [1], requestIdRef = 2,
      cancelled = False, attempts = 0\<rparr>"
  have cur: "candles (loadHistory_settled 2 1700000000000 (Inr [flat_bar 1640 1, flat_bar 1700 2]) ?s)
      = [flat_bar 1640 1, flat_bar 1700 2]"
    by (simp add: loadHistory_settled_def loadHistory_finally_def)
  from stale_history_discarded [of 1 ?s 1700000000000 "Inr [flat_bar 1640 1, flat_bar 1700 2]"]
  show ?thesis using cur by simp
qed

section \<open>Reset decision\<close>

text \<open>
  The two effects of the chart keep the tracking refs consistent, starting from their
  initial values.
\<close>

lemma refs_consistent_initial: "refs_consistent initial_refs"
  by (simp add: refs_consistent_def initial_refs_def)

lemma isReset_not_hydrated: "\<not> hydratedRef r \<Longrightarrow> isReset r ft lt len"
  by (simp add: isReset_def)

lemma refs_consistent_data_effect:
  "refs_consistent (snd (data_effect r cs))" if "refs_consistent r"
proof (cases cs)
  case Nil
  with that show ?thesis by (simp add: data_effect_def)
next
  case (Cons c cs')
  show ?thesis
  proof (cases "isReset r (time c) (time (last cs)) (length cs)")
    case True
    with Cons show ?thesis
      by (simp add: data_effect_def Let_def refs_consistent_def)
  next
    case False
    with isReset_not_hydrated have "hydratedRef r" by blast
    with False Cons show ?thesis
      by (simp add: data_effect_def Let_def refs_consistent_def)
  qed
qed

lemma refs_consistent_symbol_effect:
  "refs_consistent r \<Longrightarrow> refs_consistent (snd (symbol_effect r symb))"
  by (auto simp: symbol_effect_def refs_consistent_def split: if_splits)

lemma isReset_iff:
  assumes "refs_consistent r"
  shows "isReset r ft lt len \<longleftrightarrow> reset_required r ft lt len"
proof (cases "prevLengthRef r = 0")
  case True
  then show ?thesis by (simp add: isReset_def reset_required_def)
next
  case False
  with assms obtain pf pl where "prevFirstTimeRef r = Some pf" "prevLastTimeRef r = Some pl"
    by (auto simp: refs_consistent_def)
  then show ?thesis
    by (auto simp: isReset_def reset_required_def Let_def)
qed

lemma data_effect_call:
  "cs \<noteq> [] \<Longrightarrow>
   fst (data_effect r cs)
   = Some (if isReset r (time (hd cs)) (time (last cs)) (length cs) then setData cs
           else update (last cs))"
  by (cases cs) (simp_all add: data_effect_def Let_def)

text \<open>
  Claim C8. On tracking refs as the effects leave them, \<^verbatim>\<open>isReset\<close> holds exactly when
  the chart is not yet hydrated, or the previous length was zero, or the first bar's time
  changed, or the last bar's time decreased, or the length shrank by more than one, or it
  grew by more than one; the data effect then replaces the data, and otherwise it updates
  the last bar only. After a render of 100 bars from 1000 to 1099, an array of 101 bars
  from 1000 to 1100 gives the incremental update, and an array of 500 bars from 500 to
  1099 gives the reset.
\<close>

theorem reset_decision:
  assumes "refs_consistent r"
  shows "(isReset r firstTime lastTime len \<longleftrightarrow> reset_required r firstTime lastTime len)
    \<and> (cs \<noteq> [] \<longrightarrow>
         fst (data_effect r cs)
         = Some (if reset_required r (time (hd cs)) (time (last cs)) (length cs)
                 then setData cs else update (last cs)))
    \<and> (prevLengthRef r = 100 \<and> prevFirstTimeRef r = Some (Fin 1000)
         \<and> prevLastTimeRef r = Some (Fin 1099)
         \<and> length cs = 101 \<and> time (hd cs) = Fin 1000 \<and> time (last cs) = Fin 1100 \<longrightarrow>
         fst (data_effect r cs) = Some (update (last cs)))
    \<and> (prevLengthRef r = 100 \<and> prevFirstTimeRef r = Some (Fin 1000)
         \<and> prevLastTimeRef r = Some (Fin 1099)
         \<and> length cs = 500 \<and> time (hd cs) = Fin 500 \<and> time (last cs) = Fin 1099 \<longrightarrow>
         fst (data_effect r cs) = Some (setData cs))"
proof -
  note iff = isReset_iff [OF assms]
  have call: "fst (data_effect r cs)
         = Some (if reset_required r (time (hd cs)) (time (last cs)) (length cs)
                 then setData cs else update (last cs))" if "cs \<noteq> []"
    using that by (simp add: data_effect_call iff)
  have inc: "fst (data_effect r cs) = Some (update (last cs))"
    if h: "prevLengthRef r = 100 \<and> prevFirstTimeRef r = Some (Fin 1000)
         \<and> prevLastTimeRef r = Some (Fin 1099)
         \<and> length cs = 101 \<and> time (hd cs) = Fin 1000 \<and> time (last cs) = Fin 1100"
  proof -
    from h assms have hyd: "hydratedRef r" by (simp add: refs_consistent_def)
    from h have ne: "cs \<noteq> []" by auto
    from h hyd have "\<not> reset_required r (time (hd cs)) (time (last cs)) (length cs)"
      by (simp add: reset_required_def js_strict_eq_def)
    with call [OF ne] show ?thesis by simp
  qed
  have res: "fst (data_effect r cs) = Some (setData cs)"
    if h: "prevLengthRef r = 100 \<and> prevFirstTimeRef r = Some (Fin 1000)
         \<and> prevLastTimeRef r = Some (Fin 1099)
         \<and> length cs = 500 \<and> time (hd cs) = Fin 500 \<and> time (last cs) = Fin 1099"
  proof -
    from h have ne: "cs \<noteq> []" by auto
    from h have "reset_required r (time (hd cs)) (time (last cs)) (length cs)"
      by (simp add: reset_required_def js_strict_eq_def)
    with call [OF ne] show ?thesis by simp
  qed
  from iff call inc res show ?thesis by blast
qed

theorem reset_decision_witness:
  "refs_consistent
     \<lparr>hydratedRef = True, prevSymbolRef = Some ''BTCUSDT'', prevLengthRef = 100,
      prevFirstTimeRef = Some (Fin 1000), prevLastTimeRef = Some (Fin 1099)\<rparr>
   \<and> fst (data_effect
        \<lparr>hydratedRef = True, prevSymbolRef = Some ''BTCUSDT'', prevLengthRef = 100,
         prevFirstTimeRef = Some (Fin 1000), prevLastTimeRef = Some (Fin 1099)\<rparr>
        (map (\<lambda>t. flat_bar (real t) 1) [1000..<1101]))
      = Some (update (flat_bar 1100 1))
   \<and> fst (data_effect
        \<lparr>hydratedRef = True, prevSymbolRef = Some ''BTCUSDT'', prevLengthRef = 100,
         prevFirstTimeRef = Some (Fin 1000), prevLastTimeRef = Some (Fin 1099)\<rparr>
        (map (\<lambda>t. flat_bar (real t) 1) [500..<999] @ [flat_bar 1099 1]))
      = Some (setData (map (\<lambda>t. flat_bar (real t) 1) [500..<999] @ [flat_bar 1099 1]))"
proof -
  let ?r = "\<lparr>hydratedRef = True, prevSymbolRef = Some ''BTCUSDT'', prevLengthRef = 100,
      prevFirstTimeRef = Some (Fin 1000), prevLastTimeRef = Some (Fin 1099)\<rparr>"
  define cs1 where "cs1 = map (\<lambda>t. flat_bar (real t) 1) [1000..<1101]"
  define cs2 where "cs2 = map (\<lambda>t. flat_bar (real t) 1) [500..<999] @ [flat_bar 1099 1]"
  have h: "refs_consistent ?r" by (simp add: refs_consistent_def)
  have r: "prevLengthRef ?r = 100 \<and> prevFirstTimeRef ?r = Some (Fin 1000)
         \<and> prevLastTimeRef ?r = Some (Fin 1099)" by simp
  have a: "length cs1 = 101 \<and> time (hd cs1) = Fin 1000 \<and> time (last cs1) = Fin 1100"
    and l: "last cs1 = flat_bar 1100 1"
    unfolding cs1_def by (simp_all add: hd_map last_map del: upt_rec_numeral)
  have b: "length cs2 = 500 \<and> time (hd cs2) = Fin 500 \<and> time (last cs2) = Fin 1099"
    unfolding cs2_def by (simp add: hd_map hd_append del: upt_rec_numeral)
  from reset_decision [OF h, where cs = cs1] r a
  have "fst (data_effect ?r cs1) = Some (update (last cs1))" by blast
  moreover from reset_decision [OF h, where cs = cs2] r b
  have "fst (data_effect ?r cs2) = Some (setData cs2)" by blast
  ultimately show ?thesis using h unfolding l unfolding cs1_def cs2_def by blast
qed

section \<open>Range calculation\<close>






section \<open>Bar transformation\<close>

text \<open>
  Claim C9, as the specification states it, fails on the code: \<^verbatim>\<open>toCandle\<close> has no
  failure at all and does not round the time. A row whose open time is 1700000001500 ms
  and whose open price is the text \<^verbatim>\<open>abc\<close> gives a bar with time 1700000001.5 (not the
  floor 1700000001) and an open price of \<^verbatim>\<open>NaN\<close>; an empty row gives a bar whose five
  fields are all \<^verbatim>\<open>NaN\<close>.
\<close>

theorem toCandle_malformed_counterexample:
  "toCandle example_builtins
     [JNumber (Fin 1700000001500), JString ''abc'', JString ''42380.00'', JString ''42310.00'',
      JString ''42350.10'']
   = \<lparr>time = Fin 1700000001.5, open' = NaN, high = Fin 42380, low = Fin 42310,
      close = Fin 42350.1\<rparr>
   \<and> Fin 1700000001.5 \<noteq> Fin (real_of_int \<lfloor>1700000001500 / 1000 :: real\<rfloor>)
   \<and> toCandle example_builtins [] = \<lparr>time = NaN, open' = NaN, high = NaN, low = NaN, close = NaN\<rparr>"
  by (simp add: toCandle_def row_get_def array_get_def example_builtins_def)

lemma row_get_nth:
  "row_get row (int i) = (if i < length row then row ! i else JUndefined)"
  by (simp add: row_get_def array_get_def)

lemma whole_seconds:
  "real_of_int k / 1000 = real_of_int \<lfloor>real_of_int k / 1000\<rfloor> \<longleftrightarrow> 1000 dvd k"
proof
  assume "real_of_int k / 1000 = real_of_int \<lfloor>real_of_int k / 1000\<rfloor>"
  then have "real_of_int k = real_of_int (1000 * \<lfloor>real_of_int k / 1000\<rfloor>)" by simp
  then have "k = 1000 * \<lfloor>real_of_int k / 1000\<rfloor>" by (simp only: of_int_eq_iff)
  then show "1000 dvd k" by (rule dvdI)
next
  assume "1000 dvd k"
  then obtain m where "k = 1000 * m" ..
  then show "real_of_int k / 1000 = real_of_int \<lfloor>real_of_int k / 1000\<rfloor>" by simp
qed

text \<open>
  Claim C9, amended. For every row, of any length, \<^verbatim>\<open>toCandle\<close> returns this bar, and
  there is no failure: the time is the number that the open time converts to, divided by
  1000 as the language divides and not floored, and each price is \<^verbatim>\<open>parseFloat\<close> of
  the field at its index. A field past the end of the row is \<^verbatim>\<open>undefined\<close>. The
  conversion and \<^verbatim>\<open>parseFloat\<close> leave a number as it is and give \<^verbatim>\<open>NaN\<close> for an
  \<^verbatim>\<open>undefined\<close> field (\<^verbatim>\<open>parseFloat\<close> for \<^verbatim>\<open>null\<close> too); for a string they give
  what the language reads from it. Where the division of a whole number of milliseconds
  is exact, the time is the floor of the quotient exactly when the open time is a
  multiple of 1000.
\<close>

theorem toCandle_always_returns:
  "toCandle B row
     = \<lparr>time = js_div_by B (ToNumber B (if 0 < length row then row ! 0 else JUndefined)) 1000,
        open' = parseFloat B (if 1 < length row then row ! 1 else JUndefined),
        high = parseFloat B (if 2 < length row then row ! 2 else JUndefined),
        low = parseFloat B (if 3 < length row then row ! 3 else JUndefined),
        close = parseFloat B (if 4 < length row then row ! 4 else JUndefined)\<rparr>
   \<and> toCandle B (t # opn # h # l # c # rest)
     = \<lparr>time = js_div_by B (ToNumber B t) 1000, open' = parseFloat B opn,
        high = parseFloat B h, low = parseFloat B l, close = parseFloat B c\<rparr>
   \<and> js_div_by B (Fin ms) 1000 = Fin (js_divide B ms 1000)
   \<and> js_div_by B NaN 1000 = NaN
   \<and> ToNumber B (JNumber n) = n
   \<and> ToNumber B (JString s) = StringToNumber B s
   \<and> ToNumber B JUndefined = NaN
   \<and> parseFloat B (JNumber n) = n
   \<and> parseFloat B (JString s) = parseFloat_string B s
   \<and> parseFloat B JUndefined = NaN
   \<and> parseFloat B JNull = NaN
   \<and> (js_divide B (real_of_int k) 1000 = real_of_int k / 1000 \<longrightarrow>
        (time (toCandle B (JNumber (Fin (real_of_int k)) # rest))
           = Fin (real_of_int \<lfloor>real_of_int k / 1000\<rfloor>)
         \<longleftrightarrow> 1000 dvd k))"
proof -
  have g: "row_get row 0 = (if 0 < length row then row ! 0 else JUndefined)"
      "row_get row 1 = (if 1 < length row then row ! 1 else JUndefined)"
      "row_get row 2 = (if 2 < length row then row ! 2 else JUndefined)"
      "row_get row 3 = (if 3 < length row then row ! 3 else JUndefined)"
      "row_get row 4 = (if 4 < length row then row ! 4 else JUndefined)"
    using row_get_nth [of row 0] row_get_nth [of row 1] row_get_nth [of row 2]
      row_get_nth [of row 3] row_get_nth [of row 4]
    by simp_all
  have every: "toCandle B row
     = \<lparr>time = js_div_by B (ToNumber B (if 0 < length row then row ! 0 else JUndefined)) 1000,
        open' = parseFloat B (if 1 < length row then row ! 1 else JUndefined),
        high = parseFloat B (if 2 < length row then row ! 2 else JUndefined),
        low = parseFloat B (if 3 < length row then row ! 3 else JUndefined),
        close = parseFloat B (if 4 < length row then row ! 4 else JUndefined)\<rparr>"
    unfolding toCandle_def g ..
  have full: "toCandle B (t # opn # h # l # c # rest)
     = \<lparr>time = js_div_by B (ToNumber B t) 1000, open' = parseFloat B opn,
        high = parseFloat B h, low = parseFloat B l, close = parseFloat B c\<rparr>"
    by (simp add: toCandle_def row_get_def array_get_def)
  have floor: "time (toCandle B (JNumber (Fin (real_of_int k)) # rest))
           = Fin (real_of_int \<lfloor>real_of_int k / 1000\<rfloor>)
         \<longleftrightarrow> 1000 dvd k"
    if ex: "js_divide B (real_of_int k) 1000 = real_of_int k / 1000"
  proof -
    have "time (toCandle B (JNumber (Fin (real_of_int k)) # rest))
        = Fin (js_divide B (real_of_int k) 1000)"
      by (simp add: toCandle_def row_get_def array_get_def)
    then have "time (toCandle B (JNumber (Fin (real_of_int k)) # rest))
        = Fin (real_of_int k / 1000)"
      by (simp only: ex)
    then show ?thesis
      by (simp only: number.inject whole_seconds)
  qed
  from every full floor show ?thesis by simp
qed

theorem toCandle_always_returns_witness:
  "js_divide example_builtins (real_of_int 1700000001500) 1000 = real_of_int 1700000001500 / 1000
   \<and> time (toCandle example_builtins [JNumber (Fin (real_of_int 1700000001500))])
       \<noteq> Fin (real_of_int \<lfloor>real_of_int 1700000001500 / 1000\<rfloor>)
   \<and> time (toCandle example_builtins [JNumber (Fin (real_of_int 1700000001000))])
       = Fin (real_of_int \<lfloor>real_of_int 1700000001000 / 1000\<rfloor>)"
proof -
  have d: "js_divide example_builtins (real_of_int k) 1000 = real_of_int k / 1000" for k
    by (simp add: example_builtins_def)
  have a: "\<not> (1000::int) dvd 1700000001500" and b: "(1000::int) dvd 1700000001000"
    by simp_all
  from toCandle_always_returns [where B = example_builtins and rest = "[]"
      and k = 1700000001500, THEN conjunct2, THEN conjunct2, THEN conjunct2, THEN conjunct2, THEN conjunct2, THEN conjunct2, THEN conjunct2, THEN conjunct2, THEN conjunct2, THEN conjunct2, THEN conjunct2, THEN mp, OF d] a
  have x: "time (toCandle example_builtins [JNumber (Fin (real_of_int 1700000001500))])
       \<noteq> Fin (real_of_int \<lfloor>real_of_int 1700000001500 / 1000\<rfloor>)"
    by blast
  from toCandle_always_returns [where B = example_builtins and rest = "[]"
      and k = 1700000001000, THEN conjunct2, THEN conjunct2, THEN conjunct2, THEN conjunct2, THEN conjunct2, THEN conjunct2, THEN conjunct2, THEN conjunct2, THEN conjunct2, THEN conjunct2, THEN conjunct2, THEN mp, OF d] b
  have y: "time (toCandle example_builtins [JNumber (Fin (real_of_int 1700000001000))])
       = Fin (real_of_int \<lfloor>real_of_int 1700000001000 / 1000\<rfloor>)"
    by blast
  from d [of 1700000001500] x y show ?thesis by (intro conjI)
qed

section \<open>Paginated history\<close>

lemma isFinite_iff: "isFinite n \<longleftrightarrow> (\<exists>a. n = Fin a)"
  by (cases n) simp_all

lemma js_le_Fin: "js_le (Fin a) (Fin b) \<longleftrightarrow> a \<le> b"
  by (auto simp: js_le_def)

lemma length_insert_sorted: "length (insert_sorted cmp x xs) = Suc (length xs)"
  by (induction xs) simp_all

lemma set_insert_sorted: "set (insert_sorted cmp x xs) = insert x (set xs)"
  by (induction xs) auto

lemma length_insertion_sort: "length (insertion_sort cmp xs) = length xs"
  unfolding insertion_sort_def by (induction xs) (simp_all add: length_insert_sorted)

lemma set_insertion_sort: "set (insertion_sort cmp xs) = set xs"
  unfolding insertion_sort_def by (induction xs) (simp_all add: set_insert_sorted)

lemma sorted_insert_sorted:
  assumes "isFinite (key x)" and "\<forall>y\<in>set xs. isFinite (key y)"
    and "sorted_wrt (\<lambda>a b. js_le (key a) (key b)) xs"
  shows "sorted_wrt (\<lambda>a b. js_le (key a) (key b))
           (insert_sorted (\<lambda>a b. js_sub (key a) (key b)) x xs)"
  using assms
proof (induction xs)
  case Nil
  then show ?case by simp
next
  case (Cons y ys)
  from Cons.prems obtain a b where a: "key x = Fin a" and b: "key y = Fin b"
    by (auto simp: isFinite_iff)
  have ys: "\<forall>z\<in>set ys. \<exists>c. key z = Fin c \<and> b \<le> c"
  proof
    fix z assume z: "z \<in> set ys"
    with Cons.prems obtain c where c: "key z = Fin c" by (auto simp: isFinite_iff)
    from Cons.prems(3) z have "js_le (key y) (key z)" by simp
    with c show "\<exists>c. key z = Fin c \<and> b \<le> c" by (simp add: b js_le_Fin)
  qed
  show ?case
  proof (cases "b < a")
    case True
    from Cons have "sorted_wrt (\<lambda>a b. js_le (key a) (key b))
        (insert_sorted (\<lambda>a b. js_sub (key a) (key b)) x ys)"
      by simp
    moreover from True ys have "\<forall>z\<in>insert x (set ys). js_le (key y) (key z)"
      by (auto simp: a b js_le_Fin)
    ultimately show ?thesis
      using True by (simp add: a b js_gt_def set_insert_sorted)
  next
    case False
    with ys have "\<forall>z\<in>set (y # ys). js_le (key x) (key z)"
      by (fastforce simp: a b js_le_Fin)
    with Cons.prems(3) False show ?thesis
      by (simp add: a b js_gt_def)
  qed
qed

lemma sorted_insertion_sort:
  "\<forall>y\<in>set xs. isFinite (key y) \<Longrightarrow>
   sorted_wrt (\<lambda>a b. js_le (key a) (key b)) (insertion_sort (\<lambda>a b. js_sub (key a) (key b)) xs)"
proof (induction xs)
  case Nil
  then show ?case by (simp add: insertion_sort_def)
next
  case (Cons x xs)
  then have "sorted_wrt (\<lambda>a b. js_le (key a) (key b))
      (insert_sorted (\<lambda>a b. js_sub (key a) (key b)) x
         (insertion_sort (\<lambda>a b. js_sub (key a) (key b)) xs))"
    by (intro sorted_insert_sorted) (simp_all add: set_insertion_sort)
  then show ?case by (simp add: insertion_sort_def)
qed

lemma conforming_example_builtins: "conforming_sort example_builtins"
  by (simp add: conforming_sort_def example_builtins_def length_insertion_sort
      set_insertion_sort sorted_insertion_sort)

text \<open>An array of two or more bars in ascending order of time has no \<^verbatim>\<open>NaN\<close> time.\<close>

lemma sorted_no_NaN:
  assumes "sorted_wrt (\<lambda>a b. js_le (time a) (time b)) cs" and "2 \<le> length cs"
    and "c \<in> set cs"
  shows "time c \<noteq> NaN"
proof -
  from assms(3) obtain i where i: "i < length cs" "cs ! i = c"
    by (auto simp: in_set_conv_nth)
  from assms(2) i(1) obtain j where j: "j < length cs" "j \<noteq> i"
    by (cases "i = 0") (auto intro: that [of 0] that [of 1])
  then consider "i < j" | "j < i" by linarith
  then show ?thesis
  proof cases
    case 1
    with assms(1) j(1) have "js_le (time (cs ! i)) (time (cs ! j))"
      by (simp add: sorted_wrt_iff_nth_less)
    then show ?thesis by (simp add: js_le_def i(2))
  next
    case 2
    with assms(1) i(1) have "js_le (time (cs ! j)) (time (cs ! i))"
      by (simp add: sorted_wrt_iff_nth_less)
    then show ?thesis by (simp add: js_le_def i(2))
  qed
qed

lemma fetch_pages_done:
  "targetCandles \<le> int (length collected) \<Longrightarrow>
   fetch_pages B fetch symb intv targetCandles targetStartMs endTime collected reqs
   = (reqs, Inr collected)"
  by (subst fetch_pages.simps) simp

lemma isFinite_toCandle:
  "isFinite (ToNumber B (row_get row 0)) \<Longrightarrow> isFinite (time (toCandle B row))"
  by (cases "ToNumber B (row_get row 0)") (simp_all add: toCandle_def)

lemma fetch_pages_ok:
  assumes ok: "\<forall>k req. \<exists>payload. fetch k req = Page payload
             \<and> length payload \<le> nat (req_limit req)
             \<and> (\<forall>row\<in>set payload. isFinite (ToNumber B (row_get row 0)))"
  shows "(\<forall>c\<in>set collected. isFinite (time c)) \<Longrightarrow>
         int (length collected) \<le> max 0 targetCandles \<Longrightarrow>
         \<exists>rs cs. fetch_pages B fetch symb intv targetCandles targetStartMs endTime collected reqs
              = (rs, Inr cs)
           \<and> (\<forall>c\<in>set cs. isFinite (time c)) \<and> int (length cs) \<le> max 0 targetCandles"
proof (induction "nat (targetCandles - int (length collected))"
    arbitrary: collected endTime reqs rule: less_induct)
  case less
  show ?case
  proof (cases "int (length collected) < targetCandles")
    case False
    then have "fetch_pages B fetch symb intv targetCandles targetStartMs endTime collected reqs
        = (reqs, Inr collected)"
      by (simp add: fetch_pages_done)
    with less.prems show ?thesis by simp
  next
    case True
    define limit where "limit = min MAX_PER_REQUEST (targetCandles - int (length collected))"
    define req where "req = buildRestUrl symb intv limit (Some endTime)"
    from ok obtain payload where p: "fetch (length reqs) req = Page payload"
      and len: "length payload \<le> nat (req_limit req)"
      and fin: "\<forall>row\<in>set payload. isFinite (ToNumber B (row_get row 0))"
      by blast
    define collected' where "collected' = collected @ map (toCandle B) payload"
    define endTime' where "endTime' = js_sub (ToNumber B (row_get (hd payload) 0)) (Fin 1)"
    have lim: "req_limit req = limit" by (simp add: req_def buildRestUrl_def)
    from True have "limit \<le> targetCandles - int (length collected)"
      by (simp add: limit_def)
    with len lim True have len': "int (length collected') \<le> max 0 targetCandles"
      by (simp add: collected'_def)
    from fin less.prems(1) have fin': "\<forall>c\<in>set collected'. isFinite (time c)"
      by (auto simp: collected'_def isFinite_toCandle)
    have step: "fetch_pages B fetch symb intv targetCandles targetStartMs endTime collected reqs
        = (if payload = [] then (reqs @ [req], Inr collected)
           else if (case targetStartMs of None \<Rightarrow> False
                    | Some t \<Rightarrow> truthy t \<and> js_le (ToNumber B (row_get (hd payload) 0)) t)
                then (reqs @ [req], Inr collected')
           else if int (length payload) < limit then (reqs @ [req], Inr collected')
           else fetch_pages B fetch symb intv targetCandles targetStartMs endTime' collected'
                  (reqs @ [req]))"
      using True p
      by (subst fetch_pages.simps)
        (simp add: Let_def limit_def [symmetric] req_def [symmetric] collected'_def endTime'_def)
    show ?thesis
    proof (cases "payload = []")
      case True
      with step less.prems show ?thesis by simp
    next
      case False
      then have "nat (targetCandles - int (length collected'))
          < nat (targetCandles - int (length collected))"
        using True by (simp add: collected'_def)
      from less.hyps [OF this fin' len']
      obtain rs cs where
        "fetch_pages B fetch symb intv targetCandles targetStartMs endTime' collected'
           (reqs @ [req]) = (rs, Inr cs)"
        "\<forall>c\<in>set cs. isFinite (time c)" "int (length cs) \<le> max 0 targetCandles"
        by blast
      with step fin' len' False show ?thesis by auto
    qed
  qed
qed


lemma fetch_pages_single:
  assumes ok: "\<forall>k req. \<exists>payload. fetch k req = Page payload"
    and pos: "0 < targetCandles" and small: "targetCandles \<le> MAX_PER_REQUEST"
  shows "fst (fetch_pages B fetch symb intv targetCandles targetStartMs endTime [] reqs)
         = reqs @ [buildRestUrl symb intv targetCandles (Some endTime)]"
proof -
  define req where "req = buildRestUrl symb intv targetCandles (Some endTime)"
  from ok obtain payload where p: "fetch (length reqs) req = Page payload" by blast
  define collected' where "collected' = map (toCandle B) payload"
  from small have lim: "min MAX_PER_REQUEST targetCandles = targetCandles" by simp
  have stop: "fetch_pages B fetch symb intv targetCandles targetStartMs e collected' (reqs @ [req])
      = (reqs @ [req], Inr collected')" if "\<not> int (length payload) < targetCandles" for e
    using that by (intro fetch_pages_done) (simp add: collected'_def)
  have "fetch_pages B fetch symb intv targetCandles targetStartMs endTime [] reqs
        = (if payload = [] then (reqs @ [req], Inr [])
           else if (case targetStartMs of None \<Rightarrow> False
                    | Some t \<Rightarrow> truthy t \<and> js_le (ToNumber B (row_get (hd payload) 0)) t)
                then (reqs @ [req], Inr collected')
           else if int (length payload) < targetCandles then (reqs @ [req], Inr collected')
           else fetch_pages B fetch symb intv targetCandles targetStartMs
                  (js_sub (ToNumber B (row_get (hd payload) 0)) (Fin 1)) collected'
                  (reqs @ [req]))"
    using pos p
    by (subst fetch_pages.simps) (simp add: Let_def lim req_def [symmetric] collected'_def)
  with stop show ?thesis by (simp add: req_def)
qed

lemma example_pages:
  "\<forall>k req. \<exists>payload. serve_rows example_rows k req = Page payload
             \<and> length payload \<le> nat (req_limit req)
             \<and> (\<forall>row\<in>set payload. isFinite (ToNumber example_builtins (row_get row 0)))"
proof (intro allI exI conjI ballI)
  fix k req row
  show "serve_rows example_rows k req = Page (take (nat (req_limit req)) example_rows)"
    by (simp add: serve_rows_def)
  show "length (take (nat (req_limit req)) example_rows) \<le> nat (req_limit req)" by simp
  assume "row \<in> set (take (nat (req_limit req)) example_rows)"
  then have "row \<in> set example_rows" by (rule in_set_takeD)
  then show "isFinite (ToNumber example_builtins (row_get row 0))"
    by (auto simp: example_rows_def row_get_def array_get_def)
qed

text \<open>
  On any engine whose sort keeps the elements of the array, a page with a record without
  fields between two records comes back out of order, whatever order the sort gives.
\<close>

lemma gap_record_unsorted_on_any_engine:
  assumes "conforming_sort B" and "js_divide B 500 1 = 500"
  shows "\<exists>reqs cs. fetchHistorical B (serve_rows [[JNumber (Fin 3000)], [], [JNumber (Fin 1000)]])
             now1 now2 symb ''1m'' \<lparr>label = l, minutes = Fin 500\<rparr> = (reqs, Inr cs)
           \<and> \<not> sorted_wrt (\<lambda>a b. js_le (time a) (time b)) cs"
proof -
  let ?rows = "[[JNumber (Fin 3000)], [], [JNumber (Fin 1000)]]"
  let ?cmp = "\<lambda>a b. js_sub (time a) (time b)"
  define collected where "collected = map (toCandle B) ?rows"
  define tstart where "tstart = Some (Fin (real_of_int now1 - 500 * 60 * 1000))"
  have t: "maxCandlesForPreset B \<lparr>label = l, minutes = Fin 500\<rparr> ''1m'' = Some 500"
    using assms(2)
    by (simp add: maxCandlesForPreset_def intervalToMinutes_def MAX_CANDLES_CAP_def)
  have "snd (fetch_pages B (serve_rows ?rows) symb ''1m'' 500 tstart (Fin (real_of_int now2)) [] [])
      = Inr collected"
    by (subst fetch_pages.simps)
      (simp add: Let_def MAX_PER_REQUEST_def serve_rows_def collected_def buildRestUrl_def)
  then obtain reqs where run:
    "fetch_pages B (serve_rows ?rows) symb ''1m'' 500 tstart (Fin (real_of_int now2)) [] []
      = (reqs, Inr collected)"
    by (cases "fetch_pages B (serve_rows ?rows) symb ''1m'' 500 tstart (Fin (real_of_int now2)) [] []")
      simp
  define cs where "cs = Array_sort B ?cmp collected"
  from run t have res: "fetchHistorical B (serve_rows ?rows) now1 now2 symb ''1m''
      \<lparr>label = l, minutes = Fin 500\<rparr> = (reqs, Inr cs)"
    by (simp add: fetchHistorical_def tstart_def cs_def)
  from assms(1) have "length cs = length collected" "set cs = set collected"
    by (simp_all add: conforming_sort_def cs_def)
  then have two: "2 \<le> length cs" and "toCandle B [] \<in> set cs"
    by (simp_all add: collected_def)
  moreover have "time (toCandle B []) = NaN"
    by (simp add: toCandle_def row_get_def array_get_def)
  ultimately have "\<not> sorted_wrt (\<lambda>a b. js_le (time a) (time b)) cs"
    using sorted_no_NaN [of cs "toCandle B []"] by blast
  with res show ?thesis by blast
qed

text \<open>
  Claim C7, as the specification states it, fails on the code. Every request below
  succeeds with three records, within the limit of 500, but the middle record has no
  fields: its bar has the time \<^verbatim>\<open>NaN\<close>, every comparison with it counts as 0, and the
  bars come back with the times 3, \<^verbatim>\<open>NaN\<close>, 1, which is not an ascending order.
\<close>

theorem fetchHistorical_unsorted_counterexample:
  "fetchHistorical example_builtins
     (serve_rows [[JNumber (Fin 3000)], [], [JNumber (Fin 1000)]])
     200000 200000 ''BTCUSDT'' ''1m''
     \<lparr>label = ''Last 500 candles (~8h)'', minutes = Fin 500\<rparr>
   = ([\<lparr>req_symbol = ''BTCUSDT'', req_interval = ''1m'', req_limit = 500,
        req_endTime = Some (Fin 200000)\<rparr>],
      Inr [\<lparr>time = Fin 3, open' = NaN, high = NaN, low = NaN, close = NaN\<rparr>,
           \<lparr>time = NaN, open' = NaN, high = NaN, low = NaN, close = NaN\<rparr>,
           \<lparr>time = Fin 1, open' = NaN, high = NaN, low = NaN, close = NaN\<rparr>])
   \<and> \<not> sorted_wrt (\<lambda>a b. js_le (time a) (time b))
        [\<lparr>time = Fin 3, open' = NaN, high = NaN, low = NaN, close = NaN\<rparr>,
         \<lparr>time = NaN, open' = NaN, high = NaN, low = NaN, close = NaN\<rparr>,
         \<lparr>time = Fin 1, open' = NaN, high = NaN, low = NaN, close = NaN\<rparr>]"
  by (simp add: fetchHistorical_def maxCandlesForPreset_def intervalToMinutes_def
      MAX_CANDLES_CAP_def MAX_PER_REQUEST_def fetch_pages.simps buildRestUrl_def truthy_def
      serve_rows_def toCandle_def row_get_def array_get_def
      example_builtins_def js_le_def js_gt_def insertion_sort_def Let_def)

text \<open>
  Claim C7, amended. When every page request succeeds with at most the requested number of
  records, the open time of every record converts to a finite number, and the engine's
  sort does what the language requires, \<^verbatim>\<open>fetchHistorical\<close> returns (the loop is a total
  function, so it ends for any network), and the series it returns is in ascending order
  of time and no longer than \<^verbatim>\<open>maxCandlesForPreset\<close> of the preset and interval (empty
  when that is \<^verbatim>\<open>NaN\<close> or negative). For 500 minutes at the 1-minute interval, where
  500 divided by 1 is 500, it issues exactly one page request, with limit 500, and returns
  at most 500 bars.
\<close>

theorem fetchHistorical_sorted_capped:
  assumes "\<forall>k req. \<exists>payload. fetch k req = Page payload
             \<and> length payload \<le> nat (req_limit req)
             \<and> (\<forall>row\<in>set payload. isFinite (ToNumber B (row_get row 0)))"
    and "conforming_sort B"
  shows "\<exists>reqs cs. fetchHistorical B fetch now1 now2 symb intv preset = (reqs, Inr cs)
           \<and> sorted_wrt (\<lambda>a b. js_le (time a) (time b)) cs
           \<and> (case maxCandlesForPreset B preset intv of
                 None \<Rightarrow> cs = []
               | Some target \<Rightarrow> int (length cs) \<le> max 0 target)
           \<and> (minutes preset = Fin 500 \<and> intv = ''1m'' \<and> js_divide B 500 1 = 500 \<longrightarrow>
                length reqs = 1 \<and> map req_limit reqs = [500] \<and> length cs \<le> 500)"
proof -
  let ?le = "\<lambda>a b. js_le (time a) (time b)"
  let ?cmp = "\<lambda>a b. js_sub (time a) (time b)"
  define tstart where "tstart = (case minutes preset of
      Fin m \<Rightarrow> Some (Fin (real_of_int now1 - m * 60 * 1000)) | _ \<Rightarrow> None)"
  from assms(2) have keeps: "length (Array_sort B cmp xs) = length xs" for cmp xs
    by (simp add: conforming_sort_def)
  from assms(2) have sorts: "sorted_wrt ?le (Array_sort B ?cmp xs)"
    if "\<forall>x\<in>set xs. isFinite (time x)" for xs
    using that unfolding conforming_sort_def by blast
  have not500: "\<not> (minutes preset = Fin 500 \<and> intv = ''1m'' \<and> js_divide B 500 1 = 500)"
    if "maxCandlesForPreset B preset intv \<noteq> Some 500"
    using that
    by (auto simp: maxCandlesForPreset_def intervalToMinutes_def MAX_CANDLES_CAP_def)
  show ?thesis
  proof (cases "maxCandlesForPreset B preset intv")
    case None
    define cs where "cs = Array_sort B ?cmp []"
    from keeps [of ?cmp "[]"] have e: "cs = []" by (simp add: cs_def)
    from None have res: "fetchHistorical B fetch now1 now2 symb intv preset = ([], Inr cs)"
      by (simp add: fetchHistorical_def cs_def)
    from None have "maxCandlesForPreset B preset intv \<noteq> Some 500" by simp
    from not500 [OF this] have scen: "minutes preset = Fin 500 \<and> intv = ''1m''
        \<and> js_divide B 500 1 = 500 \<longrightarrow>
        length ([]::rest_request list) = 1 \<and> map req_limit [] = [500] \<and> length cs \<le> 500"
      by blast
    have srt: "sorted_wrt ?le cs" by (simp add: e)
    from None e have cap: "case maxCandlesForPreset B preset intv of
        None \<Rightarrow> cs = [] | Some target \<Rightarrow> int (length cs) \<le> max 0 target"
      by simp
    show ?thesis
      by (rule exI [of _ "[]"], rule exI [of _ cs]) (intro conjI res srt cap scen)
  next
    case (Some target)
    from fetch_pages_ok [OF assms(1), of "[]" target symb intv tstart "Fin (real_of_int now2)" "[]"]
    obtain reqs collected where run:
      "fetch_pages B fetch symb intv target tstart (Fin (real_of_int now2)) [] [] = (reqs, Inr collected)"
      and fin: "\<forall>c\<in>set collected. isFinite (time c)"
      and len: "int (length collected) \<le> max 0 target"
      by auto
    define cs where "cs = Array_sort B ?cmp collected"
    from run Some have res: "fetchHistorical B fetch now1 now2 symb intv preset = (reqs, Inr cs)"
      by (simp add: fetchHistorical_def Let_def tstart_def [symmetric] cs_def)
    from fin have srt: "sorted_wrt ?le cs"
      unfolding cs_def by (rule sorts)
    from len have l: "int (length cs) \<le> max 0 target"
      by (simp add: cs_def keeps)
    with Some have cap: "case maxCandlesForPreset B preset intv of
        None \<Rightarrow> cs = [] | Some target \<Rightarrow> int (length cs) \<le> max 0 target"
      by simp
    have scen: "minutes preset = Fin 500 \<and> intv = ''1m'' \<and> js_divide B 500 1 = 500 \<longrightarrow>
        length reqs = 1 \<and> map req_limit reqs = [500] \<and> length cs \<le> 500"
    proof (cases "target = 500")
      case True
      from assms(1) have ok: "\<forall>k req. \<exists>payload. fetch k req = Page payload" by blast
      have "fst (fetch_pages B fetch symb intv 500 tstart (Fin (real_of_int now2)) [] [])
          = [] @ [buildRestUrl symb intv 500 (Some (Fin (real_of_int now2)))]"
        by (rule fetch_pages_single [OF ok]) (simp_all add: MAX_PER_REQUEST_def)
      with run True have "reqs = [buildRestUrl symb intv 500 (Some (Fin (real_of_int now2)))]"
        by simp
      with l True show ?thesis by (simp add: buildRestUrl_def)
    next
      case False
      with Some have "maxCandlesForPreset B preset intv \<noteq> Some 500" by simp
      from not500 [OF this] show ?thesis by blast
    qed
    show ?thesis
      by (rule exI [of _ reqs], rule exI [of _ cs]) (intro conjI res srt cap scen)
  qed
qed

theorem fetchHistorical_sorted_capped_witness:
  "fetchHistorical example_builtins (serve_rows example_rows) 200000 200000 ''BTCUSDT'' ''1m''
     \<lparr>label = ''Last 500 candles (~8h)'', minutes = Fin 500\<rparr>
   = ([\<lparr>req_symbol = ''BTCUSDT'', req_interval = ''1m'', req_limit = 500,
        req_endTime = Some (Fin 200000)\<rparr>],
      Inr [\<lparr>time = Fin 60, open' = Fin 42310, high = Fin 42350.1, low = Fin 42310,
             close = Fin 42350.1\<rparr>,
           \<lparr>time = Fin 120, open' = Fin 42350.1, high = Fin 42380, low = Fin 42350.1,
             close = Fin 42380\<rparr>,
           \<lparr>time = Fin 180, open' = Fin 42350.1, high = Fin 42380, low = Fin 42310,
             close = Fin 42350.1\<rparr>])
   \<and> sorted_wrt (\<lambda>a b. js_le (time a) (time b))
        [\<lparr>time = Fin 60, open' = Fin 42310, high = Fin 42350.1, low = Fin 42310,
             close = Fin 42350.1\<rparr>,
           \<lparr>time = Fin 120, open' = Fin 42350.1, high = Fin 42380, low = Fin 42350.1,
             close = Fin 42380\<rparr>,
           \<lparr>time = Fin 180, open' = Fin 42350.1, high = Fin 42380, low = Fin 42310,
             close = Fin 42350.1\<rparr>]"
proof -
  let ?p = "\<lparr>label = ''Last 500 candles (~8h)'', minutes = Fin 500\<rparr>"
  have v: "fetchHistorical example_builtins (serve_rows example_rows) 200000 200000
      ''BTCUSDT'' ''1m'' ?p
   = ([\<lparr>req_symbol = ''BTCUSDT'', req_interval = ''1m'', req_limit = 500,
        req_endTime = Some (Fin 200000)\<rparr>],
      Inr [\<lparr>time = Fin 60, open' = Fin 42310, high = Fin 42350.1, low = Fin 42310,
             close = Fin 42350.1\<rparr>,
           \<lparr>time = Fin 120, open' = Fin 42350.1, high = Fin 42380, low = Fin 42350.1,
             close = Fin 42380\<rparr>,
           \<lparr>time = Fin 180, open' = Fin 42350.1, high = Fin 42380, low = Fin 42310,
             close = Fin 42350.1\<rparr>])"
    by (simp add: fetchHistorical_def maxCandlesForPreset_def intervalToMinutes_def
        MAX_CANDLES_CAP_def MAX_PER_REQUEST_def fetch_pages.simps buildRestUrl_def truthy_def
        serve_rows_def example_rows_def toCandle_def row_get_def array_get_def
        example_builtins_def js_le_def js_gt_def insertion_sort_def Let_def)
  from fetchHistorical_sorted_capped [OF example_pages conforming_example_builtins,
      of 200000 200000 "''BTCUSDT''" "''1m''" ?p]
  obtain reqs cs where
    r: "fetchHistorical example_builtins (serve_rows example_rows) 200000 200000
          ''BTCUSDT'' ''1m'' ?p = (reqs, Inr cs)"
    and s: "sorted_wrt (\<lambda>a b. js_le (time a) (time b)) cs"
    by (elim exE conjE)
  from r have "cs = [\<lparr>time = Fin 60, open' = Fin 42310, high = Fin 42350.1, low = Fin 42310,
             close = Fin 42350.1\<rparr>,
           \<lparr>time = Fin 120, open' = Fin 42350.1, high = Fin 42380, low = Fin 42350.1,
             close = Fin 42380\<rparr>,
           \<lparr>time = Fin 180, open' = Fin 42350.1, high = Fin 42380, low = Fin 42310,
             close = Fin 42350.1\<rparr>]"
    unfolding v by simp
  with s have "sorted_wrt (\<lambda>a b. js_le (time a) (time b))
        [\<lparr>time = Fin 60, open' = Fin 42310, high = Fin 42350.1, low = Fin 42310,
             close = Fin 42350.1\<rparr>,
           \<lparr>time = Fin 120, open' = Fin 42350.1, high = Fin 42380, low = Fin 42350.1,
             close = Fin 42380\<rparr>,
           \<lparr>time = Fin 180, open' = Fin 42350.1, high = Fin 42380, low = Fin 42310,
             close = Fin 42350.1\<rparr>]"
    by (simp only:)
  with v show ?thesis by (rule conjI)
qed

end
